theory Spec2Isabelle
  imports Main "HOL-Library.Word" "HOL-Library.AList"
begin

section \<open>Teltonika AVL parser: data model\<close>

text \<open>
  Embedding of \<^verbatim>\<open>teltonika_parser.py\<close>. A Python \<^verbatim>\<open>bytes\<close> value is a list of
  8-bit words, a Python \<^verbatim>\<open>str\<close> is a \<^typ>\<open>string\<close> (ASCII text, which is what a hex dump
  of a device stream contains), Python integers that are read unsigned are \<^typ>\<open>nat\<close>,
  signed ones are \<^typ>\<open>int\<close>. Buffer offsets are positions in a buffer and are
  \<^typ>\<open>nat\<close>: the only caller starts every scan at 0 and moves forward. Exceptions are
  values of the type \<open>py_error\<close>, returned on the left of a sum.
\<close>

type_synonym byte = "8 word"
type_synonym bytes = "byte list"

datatype py_error = ValueError | IndexError

definition HEX_DELIMITER :: string where
  "HEX_DELIMITER = ''59D90010''"

definition MIN_TS_MS :: nat where
  "MIN_TS_MS = 1420070400000"

definition MAX_TS_MS :: nat where
  "MAX_TS_MS = 2051222400000"

definition ACCEL_IO_IDS :: "(nat \<times> string) list" where
  "ACCEL_IO_IDS = [(0x0011, ''x''), (0x0012, ''y''), (0x0013, ''z'')]"

text \<open>
  The class \<^verbatim>\<open>AvlRecord\<close>. The source stores \<^verbatim>\<open>lon\<close> and \<^verbatim>\<open>lat\<close> as the float
  quotient of the signed 32-bit field by \<^verbatim>\<open>10_000_000\<close>; the record keeps the signed
  field itself (units of 1e-7 degree), the float division is not modelled.
\<close>

record AvlRecord =
  timestamp_ms :: nat
  priority :: nat
  lon :: int
  lat :: int
  altitude :: int
  angle :: nat
  satellites :: nat
  speed :: nat
  accel :: "(string \<times> int option) list"

section \<open>Python primitives used by the parser\<close>

text \<open>\<^verbatim>\<open>str.isspace\<close> on ASCII: tab to carriage return, the four separators 28..31, space.\<close>

definition str_isspace :: "char \<Rightarrow> bool" where
  "str_isspace c = (let n = (of_char c :: nat) in (9 \<le> n \<and> n \<le> 13) \<or> (28 \<le> n \<and> n \<le> 32))"

definition strip :: "string \<Rightarrow> string" where
  "strip s = rev (dropWhile str_isspace (rev (dropWhile str_isspace s)))"

definition upper_char :: "char \<Rightarrow> char" where
  "upper_char c = (let n = (of_char c :: nat) in if 97 \<le> n \<and> n \<le> 122 then char_of (n - 32) else c)"

definition upper :: "string \<Rightarrow> string" where
  "upper s = map upper_char s"

text \<open>
  \<^verbatim>\<open>str.split(sep)\<close> for a non-empty separator: occurrences are taken left to right
  without overlap; \<open>cur\<close> holds the current fragment, reversed.
\<close>

function split_from :: "string \<Rightarrow> string \<Rightarrow> string \<Rightarrow> string list" where
  "split_from sep cur s =
     (if s = [] then [rev cur]
      else if sep \<noteq> [] \<and> take (length sep) s = sep
        then rev cur # split_from sep [] (drop (length sep) s)
      else split_from sep (hd s # cur) (tl s))"
  by pat_completeness auto
termination
  by (relation "measure (\<lambda>(sep, cur, s). length s)") (auto simp: neq_Nil_conv)

definition split :: "string \<Rightarrow> string \<Rightarrow> string list" where
  "split s sep = split_from sep [] s"

text \<open>
  \<^verbatim>\<open>bytes.fromhex\<close>: ASCII whitespace (\<^verbatim>\<open>Py_ISSPACE\<close>) is skipped between pairs, each
  pair is two adjacent hex digits of either case, anything else raises \<^verbatim>\<open>ValueError\<close>.
\<close>

definition bytes_isspace :: "char \<Rightarrow> bool" where
  "bytes_isspace c = (let n = (of_char c :: nat) in (9 \<le> n \<and> n \<le> 13) \<or> n = 32)"

definition digit_value :: "char \<Rightarrow> nat option" where
  "digit_value c =
     (let n = (of_char c :: nat) in
      if 48 \<le> n \<and> n \<le> 57 then Some (n - 48)
      else if 65 \<le> n \<and> n \<le> 70 then Some (n - 55)
      else if 97 \<le> n \<and> n \<le> 102 then Some (n - 87)
      else None)"

fun fromhex :: "string \<Rightarrow> py_error + bytes" where
  "fromhex [] = Inr []"
| "fromhex [c] = (if bytes_isspace c then Inr [] else Inl ValueError)"
| "fromhex (c # d # cs) =
     (if bytes_isspace c then fromhex (d # cs)
      else case (digit_value c, digit_value d) of
             (Some hi, Some lo) \<Rightarrow>
               (case fromhex cs of
                  Inl e \<Rightarrow> Inl e
                | Inr bs \<Rightarrow> Inr (of_nat (hi * 16 + lo) # bs))
           | _ \<Rightarrow> Inl ValueError)"

text \<open>\<^verbatim>\<open>int.from_bytes(raw, "big")\<close>, unsigned.\<close>

definition from_bytes_big :: "bytes \<Rightarrow> nat" where
  "from_bytes_big raw = foldl (\<lambda>acc b. acc * 256 + unat b) 0 raw"

text \<open>The slice \<^verbatim>\<open>data[i:j]\<close> for non-negative bounds; it never raises.\<close>

definition slice :: "bytes \<Rightarrow> nat \<Rightarrow> nat \<Rightarrow> bytes" where
  "slice data i j = take (j - i) (drop i data)"

text \<open>The index \<^verbatim>\<open>data[i]\<close> for a non-negative index: \<^verbatim>\<open>IndexError\<close> out of range.\<close>

definition index :: "bytes \<Rightarrow> nat \<Rightarrow> py_error + nat" where
  "index data i = (if i < length data then Inr (unat (data ! i)) else Inl IndexError)"

text \<open>\<^verbatim>\<open>1 << n\<close>: a negative shift count raises \<^verbatim>\<open>ValueError\<close>.\<close>

definition shl1 :: "int \<Rightarrow> py_error + int" where
  "shl1 n = (if n < 0 then Inl ValueError else Inr (2 ^ nat n))"

section \<open>The segmenter\<close>

text \<open>
  The body of the \<^verbatim>\<open>for part in clean.split(HEX_DELIMITER)\<close> loop of
  \<^verbatim>\<open>iter_segments\<close>; the generator's yields are collected in order.
\<close>

fun segments_of_parts :: "string list \<Rightarrow> bytes list" where
  "segments_of_parts [] = []"
| "segments_of_parts (part # rest) =
     (if part = [] then segments_of_parts rest
      else let part' = (if length part mod 2 \<noteq> 0 then butlast part else part)
           in case fromhex part' of
                Inr bs \<Rightarrow> bs # segments_of_parts rest
              | Inl e \<Rightarrow> segments_of_parts rest)"

definition iter_segments :: "string \<Rightarrow> bytes list" where
  "iter_segments raw_hex =
     (let clean = upper (strip raw_hex)
      in if clean = [] then [] else segments_of_parts (split clean HEX_DELIMITER))"

section \<open>Signed conversion\<close>

definition to_signed_int :: "int \<Rightarrow> int \<Rightarrow> py_error + int" where
  "to_signed_int v bits =
     (case shl1 (bits - 1) of
        Inl e \<Rightarrow> Inl e
      | Inr threshold \<Rightarrow>
          (case shl1 bits of
             Inl e \<Rightarrow> Inl e
           | Inr mask_v \<Rightarrow> Inr (if v \<ge> threshold then v - mask_v else v)))"

definition to_signed :: "bytes \<Rightarrow> int \<Rightarrow> py_error + int" where
  "to_signed raw bits = to_signed_int (int (from_bytes_big raw)) bits"

section \<open>The frame locator\<close>

text \<open>
  The \<^verbatim>\<open>for offset in range(...)\<close> loop of \<^verbatim>\<open>find_timestamp_offset\<close>, over the list
  of offsets of the range: \<^verbatim>\<open>break\<close> and falling off the end return \<^verbatim>\<open>None\<close>,
  \<^verbatim>\<open>continue\<close> goes on with the rest of the range.
\<close>

fun find_loop :: "bytes \<Rightarrow> nat list \<Rightarrow> py_error + nat option" where
  "find_loop data [] = Inr None"
| "find_loop data (offset # rest) =
     (let window = slice data offset (offset + 8) in
      if length window < 8 then Inr None
      else let ts = from_bytes_big window in
        if \<not> (MIN_TS_MS \<le> ts \<and> ts \<le> MAX_TS_MS) then find_loop data rest
        else if offset + 9 \<ge> length data then find_loop data rest
        else case index data (offset + 8) of
               Inl e \<Rightarrow> Inl e
             | Inr prio \<Rightarrow>
                 (let sat_pos = offset + 8 + 1 + 4 + 4 + 2 + 2 in
                  case (if sat_pos < length data then map_sum id Some (index data sat_pos)
                        else Inr None) of
                    Inl e \<Rightarrow> Inl e
                  | Inr sats \<Rightarrow>
                      if prio > 3 then find_loop data rest
                      else if sats \<noteq> None \<and> the sats > 32 then find_loop data rest
                      else Inr (Some offset)))"

definition min_len :: nat where
  "min_len = 8 + 1 + 4 + 4 + 2 + 2 + 1 + 2"

definition find_timestamp_offset :: "bytes \<Rightarrow> nat \<Rightarrow> py_error + nat option" where
  "find_timestamp_offset data start =
     find_loop data [start ..< nat (max (int (length data) - int min_len) 0)]"

section \<open>The record decoder\<close>

type_synonym io_entries = "(nat \<times> nat) list"
type_synonym io_groups = "(nat \<times> io_entries) list"

text \<open>The \<^verbatim>\<open>for _ in range(count)\<close> loop: \<open>count\<close> pairs of a 2-byte id and a value.\<close>

fun read_entries :: "bytes \<Rightarrow> nat \<Rightarrow> nat \<Rightarrow> nat \<Rightarrow> io_entries \<Rightarrow> io_entries \<times> nat" where
  "read_entries data sz 0 ptr entries = (entries, ptr)"
| "read_entries data sz (Suc n) ptr entries =
     (let io_id = from_bytes_big (slice data ptr (ptr + 2));
          ptr = ptr + 2;
          val = from_bytes_big (slice data ptr (ptr + sz));
          ptr = ptr + sz
      in read_entries data sz n ptr (AList.update io_id val entries))"

text \<open>
  The \<^verbatim>\<open>for size in (1, 2, 4, 8)\<close> loop over the remaining sizes, with the cursor and
  the dictionary \<^verbatim>\<open>groups\<close> as state; both \<^verbatim>\<open>break\<close>s leave the loop with that state.
\<close>

fun read_groups :: "bytes \<Rightarrow> nat list \<Rightarrow> nat \<Rightarrow> io_groups \<Rightarrow> io_groups \<times> nat" where
  "read_groups data [] ptr groups = (groups, ptr)"
| "read_groups data (sz # rest) ptr groups =
     (if int (length data) - int ptr < 2 then (groups, ptr)
      else let count = from_bytes_big (slice data ptr (ptr + 2));
               ptr = ptr + 2
           in if count = 0 then read_groups data rest ptr groups
              else let needed = count * (2 + sz)
                   in if int (length data) - int ptr < int needed then (groups, length data)
                      else case read_entries data sz count ptr [] of
                             (entries, ptr') \<Rightarrow>
                               read_groups data rest ptr'
                                 (if entries \<noteq> [] then AList.update sz entries groups else groups))"

text \<open>
  The test \<^verbatim>\<open>sz in groups and io_id in groups[sz]\<close> together with the value
  \<^verbatim>\<open>groups[sz][io_id]\<close> it guards.
\<close>

definition group_lookup :: "io_groups \<Rightarrow> nat \<Rightarrow> nat \<Rightarrow> nat option" where
  "group_lookup groups sz io_id =
     (case map_of groups sz of None \<Rightarrow> None | Some entries \<Rightarrow> map_of entries io_id)"

text \<open>The \<^verbatim>\<open>for io_id, axis in ACCEL_IO_IDS.items()\<close> loop.\<close>

fun extract_accel ::
  "io_groups \<Rightarrow> (nat \<times> string) list \<Rightarrow> (string \<times> int option) list
     \<Rightarrow> py_error + (string \<times> int option) list" where
  "extract_accel groups [] accel_vals = Inr accel_vals"
| "extract_accel groups ((io_id, axis) # rest) accel_vals =
     (case (case group_lookup groups 2 io_id of
              Some v \<Rightarrow> map_sum id Some (to_signed_int (int v) 16)
            | None \<Rightarrow>
                (case group_lookup groups 1 io_id of
                   Some v \<Rightarrow> map_sum id Some (to_signed_int (int v) 8)
                 | None \<Rightarrow> Inr None)) of
        Inl e \<Rightarrow> Inl e
      | Inr raw \<Rightarrow> extract_accel groups rest (AList.update axis raw accel_vals))"

text \<open>Sequencing of a step that may raise with the rest of the function.\<close>

definition on_value :: "py_error + 'a \<Rightarrow> ('a \<Rightarrow> py_error + 'b) \<Rightarrow> py_error + 'b" where
  "on_value m f = (case m of Inl e \<Rightarrow> Inl e | Inr v \<Rightarrow> f v)"

definition read_record :: "bytes \<Rightarrow> nat \<Rightarrow> py_error + (AvlRecord option \<times> nat)" where
  "read_record data ts_offset =
     (let ptr = ts_offset in
      if int (length data) - int ptr < 32 then Inr (None, ts_offset + 1)
      else let ts = from_bytes_big (slice data ptr (ptr + 8)) in
      if \<not> (MIN_TS_MS \<le> ts \<and> ts \<le> MAX_TS_MS) then Inr (None, ts_offset + 1)
      else let ptr = ptr + 8 in
      on_value (index data ptr) (\<lambda>prio.
      let ptr = ptr + 1 in
      on_value (to_signed (slice data ptr (ptr + 4)) 32) (\<lambda>lon_v.
      let ptr = ptr + 4 in
      on_value (to_signed (slice data ptr (ptr + 4)) 32) (\<lambda>lat_v.
      let ptr = ptr + 4 in
      on_value (to_signed (slice data ptr (ptr + 2)) 16) (\<lambda>alt_v.
      let ptr = ptr + 2;
          angle_v = from_bytes_big (slice data ptr (ptr + 2));
          ptr = ptr + 2 in
      on_value (index data ptr) (\<lambda>sats.
      let ptr = ptr + 1;
          speed_v = from_bytes_big (slice data ptr (ptr + 2));
          ptr = ptr + 2 in
      if int (length data) - int ptr < 4 then Inr (None, ts_offset + 1)
      else let event_id = from_bytes_big (slice data ptr (ptr + 2));
               ptr = ptr + 2;
               total_io = from_bytes_big (slice data ptr (ptr + 2));
               ptr = ptr + 2 in
      if total_io > 256 then Inr (None, ts_offset + 1)
      else let (groups, ptr) = read_groups data [1, 2, 4, 8] ptr [] in
      on_value (extract_accel groups ACCEL_IO_IDS [(''x'', None), (''y'', None), (''z'', None)])
        (\<lambda>accel_vals.
          Inr (Some \<lparr>timestamp_ms = ts, priority = prio, lon = lon_v, lat = lat_v,
                     altitude = alt_v, angle = angle_v, satellites = sats, speed = speed_v,
                     accel = accel_vals\<rparr>, ptr))))))))"

section \<open>The stream decoder\<close>

text \<open>
  The \<^verbatim>\<open>while pos < len(segment)\<close> loop of \<^verbatim>\<open>parse_avl_data\<close> for one segment, with
  the list \<^verbatim>\<open>records\<close> as state. Nothing in the loop's shape bounds its iterations, so it
  is a partial function: \<open>None\<close> stands for a loop that does not end.
\<close>

partial_function (option) segment_loop ::
  "bytes \<Rightarrow> nat \<Rightarrow> AvlRecord list \<Rightarrow> (py_error + AvlRecord list) option" where
  "segment_loop segment pos records =
     (if pos < length segment then
        (case find_timestamp_offset segment pos of
           Inl e \<Rightarrow> Some (Inl e)
         | Inr None \<Rightarrow> Some (Inr records)
         | Inr (Some ts_offset) \<Rightarrow>
             (case read_record segment ts_offset of
                Inl e \<Rightarrow> Some (Inl e)
              | Inr (None, next_pos) \<Rightarrow> segment_loop segment (ts_offset + 1) records
              | Inr (Some rec, next_pos) \<Rightarrow>
                  segment_loop segment (max next_pos (ts_offset + 1)) (records @ [rec])))
      else Some (Inr records))"

declare segment_loop.simps [code]

text \<open>The \<^verbatim>\<open>for segment in iter_segments(raw_hex)\<close> loop.\<close>

fun segments_loop :: "bytes list \<Rightarrow> AvlRecord list \<Rightarrow> (py_error + AvlRecord list) option" where
  "segments_loop [] records = Some (Inr records)"
| "segments_loop (segment # rest) records =
     (case segment_loop segment 0 records of
        None \<Rightarrow> None
      | Some (Inl e) \<Rightarrow> Some (Inl e)
      | Some (Inr records') \<Rightarrow> segments_loop rest records')"

definition parse_avl_data :: "string \<Rightarrow> (py_error + AvlRecord list) option" where
  "parse_avl_data raw_hex = segments_loop (iter_segments raw_hex) []"

section \<open>Reference notions used in the statements\<close>

text \<open>
  Byte conversion of a string of hex digits taken pair by pair, used to say what a
  fragment converts to; it is not part of the parser.
\<close>

fun hex_pairs :: "string \<Rightarrow> bytes" where
  "hex_pairs (c # d # cs) =
     of_nat (the (digit_value c) * 16 + the (digit_value d)) # hex_pairs cs"
| "hex_pairs cs = []"

text \<open>
  The three acceptance tests of the frame locator at one offset: timestamp window,
  priority byte, satellite byte.
\<close>

definition plausible :: "bytes \<Rightarrow> nat \<Rightarrow> bool" where
  "plausible data offset =
     (let ts = from_bytes_big (slice data offset (offset + 8))
      in MIN_TS_MS \<le> ts \<and> ts \<le> MAX_TS_MS
         \<and> unat (data ! (offset + 8)) \<le> 3 \<and> unat (data ! (offset + 21)) \<le> 32)"

text \<open>
  The structural violations of the record decoder: fewer than its minimum of 32 bytes
  remaining, a timestamp outside the window, a total-IO count above 256.
\<close>

definition structural_violation :: "bytes \<Rightarrow> nat \<Rightarrow> bool" where
  "structural_violation data ts_offset =
     (let ts = from_bytes_big (slice data ts_offset (ts_offset + 8));
          total_io = from_bytes_big (slice data (ts_offset + 26) (ts_offset + 28))
      in length data < ts_offset + 32 \<or> ts < MIN_TS_MS \<or> MAX_TS_MS < ts \<or> total_io > 256)"

text \<open>Two's complement as arithmetic, and the accelerometer value it gives per IO id.\<close>

definition signed_of :: "nat \<Rightarrow> nat \<Rightarrow> int" where
  "signed_of bits v = (if int v \<ge> 2 ^ (bits - 1) then int v - 2 ^ bits else int v)"

definition accel_of :: "io_groups \<Rightarrow> nat \<Rightarrow> int option" where
  "accel_of groups io_id =
     (case group_lookup groups 2 io_id of
        Some v \<Rightarrow> Some (signed_of 16 v)
      | None \<Rightarrow>
          (case group_lookup groups 1 io_id of
             Some v \<Rightarrow> Some (signed_of 8 v)
           | None \<Rightarrow> None))"

text \<open>
  The same value with the group's entry reinterpreted as a signed machine word of the
  group's width.
\<close>

definition accel_value :: "io_groups \<Rightarrow> nat \<Rightarrow> int option" where
  "accel_value groups io_id =
     (case group_lookup groups 2 io_id of
        Some v \<Rightarrow> Some (sint (word_of_nat v :: 16 word))
      | None \<Rightarrow>
          (case group_lookup groups 1 io_id of
             Some v \<Rightarrow> Some (sint (word_of_nat v :: 8 word))
           | None \<Rightarrow> None))"

text \<open>Every value of a group of width \<open>sz\<close> fits in \<open>sz\<close> bytes.\<close>

definition entries_bounded :: "nat \<Rightarrow> io_entries \<Rightarrow> bool" where
  "entries_bounded sz entries \<longleftrightarrow> (\<forall>io_id v. map_of entries io_id = Some v \<longrightarrow> v < 256 ^ sz)"

definition groups_bounded :: "io_groups \<Rightarrow> bool" where
  "groups_bounded groups \<longleftrightarrow>
     (\<forall>sz entries. map_of groups sz = Some entries \<longrightarrow> entries_bounded sz entries)"

text \<open>
  The width of the first IO group, if any, whose non-zero declared count needs more than
  the bytes that remain behind its count field.
\<close>

fun first_truncated :: "bytes \<Rightarrow> nat list \<Rightarrow> nat \<Rightarrow> nat option" where
  "first_truncated data [] ptr = None"
| "first_truncated data (sz # rest) ptr =
     (if length data < ptr + 2 then None
      else let count = from_bytes_big (slice data ptr (ptr + 2))
           in if count = 0 then first_truncated data rest (ptr + 2)
              else if length data < ptr + 2 + count * (2 + sz) then Some sz
              else first_truncated data rest (ptr + 2 + count * (2 + sz)))"

text \<open>A record that the decoder returns at an offset that the locator returns.\<close>

definition decodes :: "bytes \<Rightarrow> AvlRecord \<Rightarrow> bool" where
  "decodes segment r \<longleftrightarrow>
     (\<exists>start ts_offset n. find_timestamp_offset segment start = Inr (Some ts_offset)
        \<and> read_record segment ts_offset = Inr (Some r, n))"

definition plausible_record :: "AvlRecord \<Rightarrow> bool" where
  "plausible_record r \<longleftrightarrow>
     MIN_TS_MS \<le> timestamp_ms r \<and> timestamp_ms r \<le> MAX_TS_MS
     \<and> priority r \<in> {0, 1, 2, 3} \<and> satellites r \<le> 32"

section \<open>Example frames\<close>

text \<open>
  \<open>frame_A\<close> is a well-formed record with one entry in the 1-byte and one in the 2-byte
  group; \<open>frame_B\<close> declares 65535 entries in its 1-byte group; \<open>frame_T\<close> declares five
  entries in its 2-byte group and holds three; \<open>frame_R\<close> is a GPS block with the total-IO
  count 257; \<open>frame_D\<close> has the id \<^verbatim>\<open>0x0011\<close> in the 1-byte and the 2-byte group and
  \<^verbatim>\<open>0x0013\<close> in the 4-byte group only. \<open>hex_A\<close> is the delimiter followed by \<open>frame_A\<close>,
  in lower case.
\<close>

definition frame_A :: bytes where
  "frame_A =
     [0x00, 0x00, 0x01, 0x8B, 0xCF, 0xE5, 0x68, 0x00, 0x01, 0x08, 0x95, 0x44,
      0x00, 0x1D, 0xCD, 0x65, 0x00, 0xFF, 0xFB, 0x00, 0x5A, 0x07, 0x00, 0x3C,
      0x00, 0x00, 0x00, 0x02, 0x00, 0x01, 0x00, 0x11, 0xFE, 0x00, 0x01, 0x00,
      0x12, 0x80, 0x00, 0x00, 0x00, 0x00, 0x00]"

definition frame_B :: bytes where
  "frame_B =
     [0x00, 0x00, 0x01, 0x8B, 0xCF, 0xE5, 0x6B, 0xE8, 0x02, 0x08, 0x95, 0x44,
      0x00, 0x1D, 0xCD, 0x65, 0x00, 0x00, 0x0A, 0x00, 0x5A, 0x07, 0x00, 0x3C,
      0x00, 0x00, 0x00, 0x02, 0xFF, 0xFF, 0x00, 0x11, 0xFE, 0x00, 0x01, 0x00,
      0x12, 0x80, 0x00, 0x00, 0x00, 0x00, 0x00]"

definition frame_T :: bytes where
  "frame_T =
     [0x00, 0x00, 0x01, 0x8B, 0xCF, 0xE5, 0x6F, 0xD0, 0x00, 0xF7, 0x6A, 0xBC,
      0x00, 0xE2, 0x32, 0x9B, 0x00, 0x00, 0x0A, 0x00, 0xB4, 0x09, 0x00, 0x00,
      0x00, 0x00, 0x00, 0x06, 0x00, 0x01, 0x00, 0x11, 0xFE, 0x00, 0x05, 0x00,
      0x12, 0x7F, 0xFF, 0x00, 0x13, 0x00, 0x01, 0x00, 0x14, 0x00, 0x02]"

definition frame_R :: bytes where
  "frame_R =
     [0x00, 0x00, 0x01, 0x8B, 0xCF, 0xE5, 0x73, 0xB8, 0x00, 0x00, 0x00, 0x00,
      0x01, 0x00, 0x00, 0x00, 0x02, 0x00, 0x03, 0x00, 0x04, 0x05, 0x00, 0x06,
      0x00, 0x00, 0x01, 0x01]"

definition frame_D :: bytes where
  "frame_D =
     [0x00, 0x00, 0x01, 0x8B, 0xCF, 0xE5, 0x77, 0xA0, 0x03, 0x00, 0x00, 0x00,
      0x01, 0xFF, 0xFF, 0xFF, 0xFF, 0xFF, 0xFF, 0x01, 0x67, 0x20, 0x00, 0x00,
      0x00, 0x00, 0x00, 0x04, 0x00, 0x02, 0x00, 0x11, 0x05, 0x00, 0x12, 0x80,
      0x00, 0x01, 0x00, 0x11, 0xFF, 0xFE, 0x00, 0x01, 0x00, 0x13, 0x00, 0x00,
      0x00, 0x07, 0x00, 0x00]"

definition rec_A :: AvlRecord where
  "rec_A = \<lparr>timestamp_ms = 1700000000000, priority = 1, lon = 144000000, lat = 500000000,
             altitude = - 5, angle = 90, satellites = 7, speed = 60,
             accel = [(''x'', Some (- 2)), (''y'', Some (- 32768)), (''z'', None)]\<rparr>"

definition rec_B :: AvlRecord where
  "rec_B = \<lparr>timestamp_ms = 1700000001000, priority = 2, lon = 144000000, lat = 500000000,
             altitude = 10, angle = 90, satellites = 7, speed = 60,
             accel = [(''x'', None), (''y'', None), (''z'', None)]\<rparr>"

definition rec_T :: AvlRecord where
  "rec_T = \<lparr>timestamp_ms = 1700000002000, priority = 0, lon = - 144000000, lat = - 500000000,
             altitude = 10, angle = 180, satellites = 9, speed = 0,
             accel = [(''x'', Some (- 2)), (''y'', None), (''z'', None)]\<rparr>"

definition rec_D :: AvlRecord where
  "rec_D = \<lparr>timestamp_ms = 1700000004000, priority = 3, lon = 1, lat = - 1,
             altitude = - 1, angle = 359, satellites = 32, speed = 0,
             accel = [(''x'', Some (- 2)), (''y'', Some (- 128)), (''z'', None)]\<rparr>"

definition hex_A :: string where
  "hex_A = ''59d900100000018bcfe5680001089544001dcd6500fffb005a07003c0000000200010011fe00010012800000000000''"

section \<open>Properties of the segmenter\<close>

lemmas seg_eval = iter_segments_def strip_def upper_def split_def HEX_DELIMITER_def
  str_isspace_def upper_char_def bytes_isspace_def digit_value_def char_of_def bit_0

lemma digit_not_bytes_space: "digit_value c \<noteq> None \<Longrightarrow> \<not> bytes_isspace c"
  by (auto simp: digit_value_def bytes_isspace_def Let_def split: if_splits)

lemma digit_not_str_space: "digit_value c \<noteq> None \<Longrightarrow> \<not> str_isspace c"
  by (auto simp: digit_value_def str_isspace_def Let_def split: if_splits)

lemma fromhex_digits:
  "\<forall>c\<in>set s. digit_value c \<noteq> None \<Longrightarrow> even (length s) \<Longrightarrow> fromhex s = Inr (hex_pairs s)"
proof (induction s rule: fromhex.induct)
  case 1
  then show ?case by simp
next
  case (2 c)
  then show ?case by simp
next
  case (3 c d cs)
  then show ?case by (auto simp: digit_not_bytes_space)
qed

lemma fromhex_invalid:
  "\<exists>c\<in>set s. digit_value c = None \<and> \<not> bytes_isspace c \<Longrightarrow> fromhex s = Inl ValueError"
proof (induction s rule: fromhex.induct)
  case 1
  then show ?case by simp
next
  case (2 c)
  then show ?case by auto
next
  case (3 c d cs)
  show ?case
  proof (cases "bytes_isspace c")
    case True
    with 3 show ?thesis by auto
  next
    case False
    show ?thesis
    proof (cases "digit_value c = None \<or> digit_value d = None")
      case True
      with False show ?thesis by (auto split: option.splits)
    next
      case no: False
      with 3(3) have "\<exists>c\<in>set cs. digit_value c = None \<and> \<not> bytes_isspace c" by auto
      with 3(2) False no have "fromhex cs = Inl ValueError" by auto
      with False no show ?thesis by auto
    qed
  qed
qed

lemma odd_fragment:
  assumes o: "odd (length part)" and d: "\<forall>c\<in>set part. digit_value c \<noteq> None"
  shows "segments_of_parts (part # rest) = hex_pairs (butlast part) # segments_of_parts rest"
proof -
  from o have ne: "part \<noteq> []" by auto
  from d have "\<forall>c\<in>set (butlast part). digit_value c \<noteq> None"
    by (meson in_set_butlastD)
  moreover from o have "even (length (butlast part))" by simp
  ultimately have "fromhex (butlast part) = Inr (hex_pairs (butlast part))"
    by (rule fromhex_digits)
  with o ne show ?thesis by (simp add: odd_iff_mod_2_eq_one)
qed

lemma invalid_fragment:
  assumes "\<exists>c\<in>set (if odd (length part) then butlast part else part).
             digit_value c = None \<and> \<not> bytes_isspace c"
  shows "segments_of_parts (part # rest) = segments_of_parts rest"
proof -
  from assms
  have "fromhex (if odd (length part) then butlast part else part) = Inl ValueError"
    by (rule fromhex_invalid)
  then show ?thesis by (auto simp: odd_iff_mod_2_eq_one)
qed

lemma single_digit:
  assumes d: "digit_value c \<noteq> None"
  shows "iter_segments [c] = [[]]"
proof -
  from d have s: "strip [c] = [c]" by (simp add: strip_def digit_not_str_space)
  have u: "upper [c] = [upper_char c]" by (simp add: upper_def)
  have sp: "split [upper_char c] HEX_DELIMITER = [[upper_char c]]"
    by (simp add: split_def HEX_DELIMITER_def)
  show ?thesis by (simp add: iter_segments_def s u sp)
qed

lemma single_digit_between: "iter_segments (HEX_DELIMITER @ [c] @ HEX_DELIMITER) = [[]]"
  by (simp add: seg_eval)

text \<open>
  Claim C9, as stated: the empty string and the bare delimiter give no segment, an
  odd-length fragment loses its last digit before conversion, and a fragment containing
  an invalid hex digit is dropped. The last part fails: the fragment \<^verbatim>\<open>ABG\<close> contains
  the invalid digit \<^verbatim>\<open>G\<close>, but it has odd length, the truncation removes the \<^verbatim>\<open>G\<close>, and
  the segment \<^verbatim>\<open>AB\<close> is yielded.
\<close>

theorem invalid_tail_digit_not_dropped:
  "digit_value CHR ''G'' = None \<and> CHR ''G'' \<in> set ''ABG'' \<and> iter_segments ''ABG'' = [[0xAB]]"
  by (simp add: seg_eval)

text \<open>
  Claim C9, amended: \<open>iter_segments\<close> yields no segment on the empty string and on the
  delimiter alone (in either case); a fragment of hex digits of odd length is converted
  without its last digit; and a fragment that, after the odd-length truncation, still
  holds a character that is neither a hex digit nor ASCII whitespace is dropped, the
  fragments after it being processed as before.
\<close>

theorem iter_segments_fragments:
  "iter_segments [] = [] \<and> iter_segments HEX_DELIMITER = [] \<and> iter_segments ''59d90010'' = []
   \<and> (\<forall>part rest. odd (length part) \<and> (\<forall>c\<in>set part. digit_value c \<noteq> None) \<longrightarrow>
         segments_of_parts (part # rest) = hex_pairs (butlast part) # segments_of_parts rest)
   \<and> (\<forall>part rest.
         (\<exists>c\<in>set (if odd (length part) then butlast part else part).
            digit_value c = None \<and> \<not> bytes_isspace c) \<longrightarrow>
         segments_of_parts (part # rest) = segments_of_parts rest)"
proof -
  have "iter_segments [] = []" by (simp add: seg_eval)
  moreover have "iter_segments HEX_DELIMITER = []" by (simp add: seg_eval)
  moreover have "iter_segments ''59d90010'' = []" by (simp add: seg_eval)
  ultimately show ?thesis using odd_fragment invalid_fragment by blast
qed

theorem iter_segments_fragments_witness:
  "odd (length ''ABC'') \<and> digit_value CHR ''A'' \<noteq> None \<and> digit_value CHR ''B'' \<noteq> None
   \<and> digit_value CHR ''C'' \<noteq> None
   \<and> segments_of_parts [''ABC'', ''CD''] = [[0xAB], [0xCD]]
   \<and> CHR ''Z'' \<in> set ''0Z'' \<and> digit_value CHR ''Z'' = None \<and> \<not> bytes_isspace CHR ''Z''
   \<and> segments_of_parts [''0Z'', ''CD''] = [[0xCD]]
   \<and> iter_segments ''abc59d90010cd'' = [[0xAB], [0xCD]]
   \<and> iter_segments ''0z59d90010cd'' = [[0xCD]]"
proof -
  have a: "odd (length ''ABC'') \<and> (\<forall>c\<in>set ''ABC''. digit_value c \<noteq> None)"
    by (simp add: digit_value_def)
  have b: "\<exists>c\<in>set (if odd (length ''0Z'') then butlast ''0Z'' else ''0Z'').
             digit_value c = None \<and> \<not> bytes_isspace c"
    by (simp add: digit_value_def bytes_isspace_def)
  from iter_segments_fragments a
  have "segments_of_parts [''ABC'', ''CD''] = hex_pairs (butlast ''ABC'') # segments_of_parts [''CD'']"
    by blast
  moreover from iter_segments_fragments b
  have "segments_of_parts [''0Z'', ''CD''] = segments_of_parts [''CD'']"
    by blast
  moreover have "iter_segments ''abc59d90010cd'' = [[0xAB], [0xCD]]"
    by (simp add: seg_eval)
  moreover have "iter_segments ''0z59d90010cd'' = [[0xCD]]"
    by (simp add: seg_eval)
  ultimately show ?thesis
    by (simp add: digit_value_def bytes_isspace_def)
qed

text \<open>
  Claim C10: a fragment of exactly one hex digit passes the non-empty test, is cut to
  the empty string by the odd-length rule and is yielded as an empty byte buffer, as the
  whole input or between two delimiters.
\<close>

theorem single_digit_yields_empty_segment:
  "digit_value c \<noteq> None \<Longrightarrow>
     iter_segments [c] = [[]] \<and> iter_segments (HEX_DELIMITER @ [c] @ HEX_DELIMITER) = [[]]"
  using single_digit single_digit_between by simp

theorem single_digit_yields_empty_segment_witness:
  "digit_value CHR ''A'' \<noteq> None \<and> iter_segments ''A'' = [[]]
   \<and> iter_segments ''59D90010A59D90010'' = [[]]"
proof -
  have d: "digit_value CHR ''A'' \<noteq> None" by (simp add: digit_value_def)
  from single_digit_yields_empty_segment [OF d] d show ?thesis
    by (simp add: HEX_DELIMITER_def)
qed

section \<open>Properties of the signed conversion\<close>

text \<open>
  Claim C8: for a bit width \<open>b\<close> of at least 1, \<open>to_signed_int\<close> returns \<open>v - 2^b\<close> when
  \<open>v \<ge> 2^(b-1)\<close> and \<open>v\<close> otherwise; \<^verbatim>\<open>0x8000\<close> at 16 bits is \<open>-32768\<close> and \<^verbatim>\<open>0x7FFF\<close> is
  \<open>32767\<close>. (For \<open>b \<le> 0\<close> the shift \<^verbatim>\<open>1 << (bits - 1)\<close> raises; the parser only uses the
  widths 8, 16 and 32.)
\<close>

theorem to_signed_int_twos_complement:
  "(\<forall>v b. 1 \<le> b \<longrightarrow>
      to_signed_int v b = Inr (if v \<ge> 2 ^ nat (b - 1) then v - 2 ^ nat b else v))
   \<and> to_signed_int 0x8000 16 = Inr (- 32768)
   \<and> to_signed_int 0x7FFF 16 = Inr 32767"
  by (simp add: to_signed_int_def shl1_def)

theorem to_signed_int_twos_complement_witness:
  "(1::int) \<le> 8 \<and> to_signed_int 255 8 = Inr (- 1) \<and> to_signed_int 127 8 = Inr 127"
  using to_signed_int_twos_complement by simp

section \<open>Properties of the frame locator\<close>

lemma length_slice: "length (slice data i j) = min (j - i) (length data - i)"
  by (simp add: slice_def)

lemma index_in_range: "i < length data \<Longrightarrow> index data i = Inr (unat (data ! i))"
  by (simp add: index_def)

lemma find_loop_step:
  assumes r: "offset + 24 < length data"
  shows "find_loop data (offset # offs) =
           (if plausible data offset then Inr (Some offset) else find_loop data offs)"
proof -
  from r have w: "length (slice data offset (offset + 8)) = 8"
    by (simp add: length_slice)
  from r show ?thesis
    by (auto simp: w index_in_range plausible_def Let_def add.commute)
qed

lemma find_loop_find:
  "\<forall>offset\<in>set offs. offset + 24 < length data \<Longrightarrow>
     find_loop data offs = Inr (List.find (plausible data) offs)"
proof (induction offs)
  case Nil
  then show ?case by simp
next
  case (Cons offset offs)
  then show ?case by (simp add: find_loop_step del: find_loop.simps)
qed

lemma find_timestamp_offset_find:
  "find_timestamp_offset data start =
     Inr (List.find (plausible data) [start ..< length data - 24])"
proof -
  have "nat (max (int (length data) - int min_len) 0) = length data - 24"
    by (simp add: min_len_def)
  moreover have "\<forall>offset\<in>set [start ..< length data - 24]. offset + 24 < length data"
    by auto
  ultimately show ?thesis
    by (simp add: find_timestamp_offset_def find_loop_find)
qed

lemma find_timestamp_offset_Some:
  "find_timestamp_offset data start = Inr (Some offset) \<longleftrightarrow>
     start \<le> offset \<and> offset + 24 < length data \<and> plausible data offset
     \<and> (\<forall>j. start \<le> j \<and> j < offset \<longrightarrow> \<not> plausible data j)"
proof
  assume "find_timestamp_offset data start = Inr (Some offset)"
  then have "List.find (plausible data) [start ..< length data - 24] = Some offset"
    by (simp add: find_timestamp_offset_find)
  then obtain i where i: "i < length [start ..< length data - 24]"
    "plausible data ([start ..< length data - 24] ! i)"
    "offset = [start ..< length data - 24] ! i"
    "\<forall>j<i. \<not> plausible data ([start ..< length data - 24] ! j)"
    by (auto simp: find_Some_iff)
  from i(1,3) have o: "offset = start + i" "i < length data - 24 - start" by auto
  have "\<not> plausible data j" if "start \<le> j" "j < offset" for j
  proof -
    from that o have "j - start < i" by arith
    with i(4) have "\<not> plausible data ([start ..< length data - 24] ! (j - start))" by blast
    moreover from that o have "[start ..< length data - 24] ! (j - start) = j" by auto
    ultimately show ?thesis by simp
  qed
  with i(2,3) o show "start \<le> offset \<and> offset + 24 < length data \<and> plausible data offset
     \<and> (\<forall>j. start \<le> j \<and> j < offset \<longrightarrow> \<not> plausible data j)" by auto
next
  assume a: "start \<le> offset \<and> offset + 24 < length data \<and> plausible data offset
     \<and> (\<forall>j. start \<le> j \<and> j < offset \<longrightarrow> \<not> plausible data j)"
  let ?xs = "[start ..< length data - 24]"
  from a have "offset - start < length ?xs" by auto
  moreover from a have "?xs ! (offset - start) = offset" by auto
  moreover from a have "\<forall>j<offset - start. \<not> plausible data (?xs ! j)" by auto
  ultimately have "List.find (plausible data) ?xs = Some offset"
    using a by (auto simp: find_Some_iff intro!: exI[of _ "offset - start"])
  then show "find_timestamp_offset data start = Inr (Some offset)"
    by (simp add: find_timestamp_offset_find)
qed

lemma find_timestamp_offset_None:
  "find_timestamp_offset data start = Inr None \<longleftrightarrow>
     (\<forall>j. start \<le> j \<and> j + 24 < length data \<longrightarrow> \<not> plausible data j)"
  by (auto simp: find_timestamp_offset_find find_None_iff)

lemma find_timestamp_offset_short:
  "length data \<le> min_len \<Longrightarrow> find_timestamp_offset data start = Inr None"
  by (simp add: find_timestamp_offset_None min_len_def)

lemma find_timestamp_offset_cases:
  obtains "find_timestamp_offset data start = Inr None"
  | offset where "find_timestamp_offset data start = Inr (Some offset)"
  by (cases "List.find (plausible data) [start ..< length data - 24]")
     (auto simp: find_timestamp_offset_find)

lemma located_self:
  "find_timestamp_offset segment j = Inr (Some j) \<longleftrightarrow> j + 24 < length segment \<and> plausible segment j"
  by (auto simp: find_timestamp_offset_Some)

section \<open>Properties of the record decoder\<close>

lemma to_signed_int_16: "to_signed_int (int v) 16 = Inr (signed_of 16 v)"
  by (simp add: to_signed_int_def shl1_def signed_of_def)

lemma to_signed_int_8: "to_signed_int (int v) 8 = Inr (signed_of 8 v)"
  by (simp add: to_signed_int_def shl1_def signed_of_def)

lemma to_signed_16: "to_signed raw 16 = Inr (signed_of 16 (from_bytes_big raw))"
  by (simp add: to_signed_def to_signed_int_16)

lemma to_signed_32: "to_signed raw 32 = Inr (signed_of 32 (from_bytes_big raw))"
  by (simp add: to_signed_def to_signed_int_def shl1_def signed_of_def)

lemma extract_accel_step:
  "extract_accel groups ((io_id, axis) # rest) accel_vals =
     extract_accel groups rest (AList.update axis (accel_of groups io_id) accel_vals)"
  by (simp add: accel_of_def to_signed_int_16 to_signed_int_8 split: option.splits)

lemma extract_accel_ids:
  "extract_accel groups ACCEL_IO_IDS [(''x'', None), (''y'', None), (''z'', None)] =
     Inr [(''x'', accel_of groups 0x11), (''y'', accel_of groups 0x12),
          (''z'', accel_of groups 0x13)]"
  by (simp add: ACCEL_IO_IDS_def extract_accel_step del: extract_accel.simps(2))

lemmas read_record_unfold = read_record_def Let_def on_value_def to_signed_16 to_signed_32
  index_in_range extract_accel_ids

lemma read_record_violation:
  "structural_violation data ts_offset \<Longrightarrow> read_record data ts_offset = Inr (None, ts_offset + 1)"
  by (auto simp: structural_violation_def read_record_unfold add.commute
      split: prod.splits simp del: read_groups.simps)

lemma read_record_ok:
  assumes "\<not> structural_violation data ts_offset"
  shows "read_record data ts_offset =
     Inr (Some \<lparr>timestamp_ms = from_bytes_big (slice data ts_offset (ts_offset + 8)),
                 priority = unat (data ! (ts_offset + 8)),
                 lon = signed_of 32 (from_bytes_big (slice data (ts_offset + 9) (ts_offset + 13))),
                 lat = signed_of 32 (from_bytes_big (slice data (ts_offset + 13) (ts_offset + 17))),
                 altitude = signed_of 16 (from_bytes_big (slice data (ts_offset + 17) (ts_offset + 19))),
                 angle = from_bytes_big (slice data (ts_offset + 19) (ts_offset + 21)),
                 satellites = unat (data ! (ts_offset + 21)),
                 speed = from_bytes_big (slice data (ts_offset + 22) (ts_offset + 24)),
                 accel = (let groups = fst (read_groups data [1, 2, 4, 8] (ts_offset + 28) [])
                          in [(''x'', accel_of groups 0x11), (''y'', accel_of groups 0x12),
                              (''z'', accel_of groups 0x13)])\<rparr>,
          snd (read_groups data [1, 2, 4, 8] (ts_offset + 28) []))"
  using assms
  by (auto simp: structural_violation_def read_record_unfold add.commute
      split: prod.splits simp del: read_groups.simps)

lemma read_record_cases:
  obtains "read_record data ts_offset = Inr (None, ts_offset + 1)" "structural_violation data ts_offset"
  | r n where "read_record data ts_offset = Inr (Some r, n)" "\<not> structural_violation data ts_offset"
  using read_record_violation read_record_ok by (cases "structural_violation data ts_offset") blast+

subsection \<open>IO groups\<close>

declare read_groups.simps [simp del]

lemma from_bytes_big_snoc: "from_bytes_big (bs @ [b]) = from_bytes_big bs * 256 + unat b"
  by (simp add: from_bytes_big_def)

lemma from_bytes_big_bound: "from_bytes_big bs < 256 ^ length bs"
proof (induction bs rule: rev_induct)
  case Nil
  then show ?case by (simp add: from_bytes_big_def)
next
  case (snoc b bs)
  have "unat b < 256" using unsigned_less [of b] by simp
  with snoc show ?case by (simp add: from_bytes_big_snoc)
qed

lemma from_bytes_slice_bound: "from_bytes_big (slice data i (i + n)) < 256 ^ n"
proof -
  have "length (slice data i (i + n)) \<le> n" by (simp add: length_slice)
  then have "(256::nat) ^ length (slice data i (i + n)) \<le> 256 ^ n"
    by (simp add: power_increasing)
  with from_bytes_big_bound [of "slice data i (i + n)"] show ?thesis by linarith
qed

lemma read_entries_snd: "snd (read_entries data sz count ptr entries) = ptr + count * (2 + sz)"
  by (induction count arbitrary: ptr entries) (simp_all add: Let_def)

lemma read_entries_bounded:
  "entries_bounded sz entries \<Longrightarrow> entries_bounded sz (fst (read_entries data sz count ptr entries))"
proof (induction count arbitrary: ptr entries)
  case 0
  then show ?case by simp
next
  case (Suc count)
  have "entries_bounded sz
          (AList.update (from_bytes_big (slice data ptr (ptr + 2)))
             (from_bytes_big (slice data (ptr + 2) (ptr + 2 + sz))) entries)"
    using Suc.prems from_bytes_slice_bound [of data "ptr + 2" sz]
    by (auto simp: entries_bounded_def update_conv')
  from Suc.IH [OF this] show ?case by (simp add: Let_def)
qed

lemma read_entries_result_bounded:
  "read_entries data sz count ptr [] = (entries, ptr') \<Longrightarrow> entries_bounded sz entries"
  using read_entries_bounded [of sz "[]" data count ptr]
  by (simp add: entries_bounded_def)

lemma groups_bounded_update:
  "entries_bounded sz entries \<Longrightarrow> groups_bounded groups \<Longrightarrow>
     groups_bounded (AList.update sz entries groups)"
  by (auto simp: groups_bounded_def update_conv')

lemma read_groups_bounded:
  "groups_bounded groups \<Longrightarrow> groups_bounded (fst (read_groups data sizes ptr groups))"
proof (induction sizes arbitrary: ptr groups)
  case Nil
  then show ?case by (simp add: read_groups.simps)
next
  case (Cons sz rest)
  then show ?case
    by (auto simp: read_groups.simps Let_def groups_bounded_update read_entries_result_bounded
        split: prod.splits)
qed

lemma groups_bounded_Nil: "groups_bounded []"
  by (simp add: groups_bounded_def)

lemma signed_of_16: "v < 65536 \<Longrightarrow> signed_of 16 v = sint (word_of_nat v :: 16 word)"
proof -
  assume v: "v < 65536"
  have "sint (word_of_nat v :: 16 word) = (int v + 32768) mod 65536 - 32768"
    by (simp add: signed_of_nat signed_take_bit_eq_take_bit_shift take_bit_eq_mod)
  also have "\<dots> = signed_of 16 v"
  proof (cases "v < 32768")
    case True
    then show ?thesis by (simp add: signed_of_def)
  next
    case False
    with v have "(int v + 32768) mod 65536 = int v + 32768 - 65536"
      by (simp add: mod_pos_geq)
    with False show ?thesis by (simp add: signed_of_def)
  qed
  finally show ?thesis by simp
qed

lemma signed_of_8: "v < 256 \<Longrightarrow> signed_of 8 v = sint (word_of_nat v :: 8 word)"
proof -
  assume v: "v < 256"
  have "sint (word_of_nat v :: 8 word) = (int v + 128) mod 256 - 128"
    by (simp add: signed_of_nat signed_take_bit_eq_take_bit_shift take_bit_eq_mod)
  also have "\<dots> = signed_of 8 v"
  proof (cases "v < 128")
    case True
    then show ?thesis by (simp add: signed_of_def)
  next
    case False
    with v have "(int v + 128) mod 256 = int v + 128 - 256"
      by (simp add: mod_pos_geq)
    with False show ?thesis by (simp add: signed_of_def)
  qed
  finally show ?thesis by simp
qed

lemma group_lookup_bounded:
  "groups_bounded groups \<Longrightarrow> group_lookup groups sz io_id = Some v \<Longrightarrow> v < 256 ^ sz"
  by (auto simp: groups_bounded_def entries_bounded_def group_lookup_def split: option.splits)

lemma accel_of_value:
  assumes "groups_bounded groups"
  shows "accel_of groups io_id = accel_value groups io_id"
proof -
  have "signed_of 16 v = sint (word_of_nat v :: 16 word)" if "group_lookup groups 2 io_id = Some v" for v
    using group_lookup_bounded [OF assms that] by (simp add: signed_of_16)
  moreover
  have "signed_of 8 v = sint (word_of_nat v :: 8 word)" if "group_lookup groups 1 io_id = Some v" for v
    using group_lookup_bounded [OF assms that] by (simp add: signed_of_8)
  ultimately show ?thesis
    by (simp add: accel_of_def accel_value_def split: option.splits)
qed

lemma first_truncated_mem: "first_truncated data sizes ptr = Some w \<Longrightarrow> w \<in> set sizes"
  by (induction sizes arbitrary: ptr) (auto simp: Let_def split: if_splits)

lemma int_diff_less: "(int a - int b < int c) \<longleftrightarrow> (a < b + c)"
  by auto

lemma read_groups_Cons:
  "read_groups data (sz # rest) ptr groups =
     (if length data < ptr + 2 then (groups, ptr)
      else let count = from_bytes_big (slice data ptr (ptr + 2))
           in if count = 0 then read_groups data rest (ptr + 2) groups
              else if length data < ptr + 2 + count * (2 + sz) then (groups, length data)
              else let entries = fst (read_entries data sz count (ptr + 2) [])
                   in read_groups data rest (ptr + 2 + count * (2 + sz))
                        (if entries \<noteq> [] then AList.update sz entries groups else groups))"
proof -
  have a: "(int (length data) - int ptr < 2) \<longleftrightarrow> (length data < ptr + 2)"
    using int_diff_less [of "length data" ptr 2] by simp
  have b: "(int (length data) - int (ptr + 2) < int (n * (2 + sz)))
             \<longleftrightarrow> (length data < ptr + 2 + n * (2 + sz))" for n
    by (rule int_diff_less)
  have c: "read_entries data sz n (ptr + 2) [] =
             (fst (read_entries data sz n (ptr + 2) []), ptr + 2 + n * (2 + sz))" for n
    using read_entries_snd [of data sz n "ptr + 2" "[]"]
    by (metis prod.collapse)
  show ?thesis
    apply (subst read_groups.simps)
    apply (subst a)
    apply (simp only: Let_def b)
    apply (subst c)
    apply (simp only: prod.case)
    done
qed

lemma read_groups_truncated:
  "first_truncated data sizes ptr = Some w \<Longrightarrow> distinct sizes \<Longrightarrow>
     snd (read_groups data sizes ptr groups) = length data
     \<and> fst ` set (fst (read_groups data sizes ptr groups))
         \<subseteq> fst ` set groups \<union> set (takeWhile (\<lambda>s. s \<noteq> w) sizes)"
proof (induction sizes arbitrary: ptr groups)
  case Nil
  then show ?case by (simp add: read_groups.simps)
next
  case (Cons sz rest)
  let ?count = "from_bytes_big (slice data ptr (ptr + 2))"
  let ?entries = "fst (read_entries data sz ?count (ptr + 2) [])"
  let ?groups = "if ?entries \<noteq> [] then AList.update sz ?entries groups else groups"
  from Cons.prems have len: "\<not> length data < ptr + 2"
    by (auto split: if_splits)
  from Cons.prems have d: "distinct rest" "sz \<notin> set rest" by simp_all
  show ?case
  proof (cases "?count = 0")
    case True
    with Cons.prems len have t: "first_truncated data rest (ptr + 2) = Some w"
      by (simp add: Let_def)
    then have "w \<in> set rest" by (rule first_truncated_mem)
    with d have "sz \<noteq> w" by auto
    with Cons.IH [OF t d(1), of groups] True len show ?thesis
      by (auto simp: read_groups_Cons Let_def simp del: read_groups.simps)
  next
    case False
    show ?thesis
    proof (cases "length data < ptr + 2 + ?count * (2 + sz)")
      case True
      with Cons.prems len False have "w = sz" by (simp add: Let_def)
      with True len False show ?thesis
        by (auto simp: read_groups_Cons Let_def simp del: read_groups.simps)
    next
      case fits: False
      with Cons.prems len False
      have t: "first_truncated data rest (ptr + 2 + ?count * (2 + sz)) = Some w"
        by (simp add: Let_def)
      then have "w \<in> set rest" by (rule first_truncated_mem)
      with d have ne: "sz \<noteq> w" by auto
      define groups' where "groups' = ?groups"
      have rg: "read_groups data (sz # rest) ptr groups =
        read_groups data rest (ptr + 2 + ?count * (2 + sz)) groups'"
        using len False fits unfolding groups'_def
        by (simp add: read_groups_Cons Let_def del: read_groups.simps)
      have keys: "fst ` set groups' \<subseteq> insert sz (fst ` set groups)"
        unfolding groups'_def by (auto simp: dom_update)
      from Cons.IH [OF t d(1), of groups']
      have ih: "snd (read_groups data (sz # rest) ptr groups) = length data"
        "fst ` set (fst (read_groups data (sz # rest) ptr groups))
           \<subseteq> fst ` set groups' \<union> set (takeWhile (\<lambda>s. s \<noteq> w) rest)"
        unfolding rg by simp_all
      from ne have "takeWhile (\<lambda>s. s \<noteq> w) (sz # rest) = sz # takeWhile (\<lambda>s. s \<noteq> w) rest"
        by simp
      with ih keys show ?thesis by auto
    qed
  qed
qed

lemma read_groups_truncated_1248:
  assumes "first_truncated data [1, 2, 4, 8] ptr = Some w"
  shows "snd (read_groups data [1, 2, 4, 8] ptr []) = length data"
    and "\<forall>sz. w \<le> sz \<longrightarrow> map_of (fst (read_groups data [1, 2, 4, 8] ptr [])) sz = None"
proof -
  let ?g = "fst (read_groups data [1, 2, 4, 8] ptr [])"
  from read_groups_truncated [OF assms, of "[]"]
  have s: "snd (read_groups data [1, 2, 4, 8] ptr []) = length data"
    and k: "fst ` set ?g \<subseteq> set (takeWhile (\<lambda>s. s \<noteq> w) [1, 2, 4, 8])"
    by (simp_all del: read_groups.simps)
  from s show "snd (read_groups data [1, 2, 4, 8] ptr []) = length data" .
  from first_truncated_mem [OF assms] have "w = 1 \<or> w = 2 \<or> w = 4 \<or> w = 8" by simp
  then have "set (takeWhile (\<lambda>s. s \<noteq> w) [1, 2, 4, 8]) \<subseteq> {s. s < w}" by auto
  with k have "fst ` set ?g \<subseteq> {s. s < w}" by blast
  then have "sz \<notin> fst ` set ?g" if "w \<le> sz" for sz
    using that by (auto simp del: read_groups.simps)
  then show "\<forall>sz. w \<le> sz \<longrightarrow> map_of ?g sz = None"
    by (simp add: map_of_eq_None_iff del: read_groups.simps)
qed

lemma extract_accel_other_group:
  assumes "sz \<noteq> 1" "sz \<noteq> 2"
  shows "extract_accel (AList.update sz entries groups) ids accel_vals =
         extract_accel groups ids accel_vals"
proof -
  have g1: "group_lookup (AList.update sz entries groups) 1 io_id = group_lookup groups 1 io_id"
    for io_id using assms by (simp add: group_lookup_def update_conv')
  have g2: "group_lookup (AList.update sz entries groups) 2 io_id = group_lookup groups 2 io_id"
    for io_id using assms by (simp add: group_lookup_def update_conv')
  have "accel_of (AList.update sz entries groups) io_id = accel_of groups io_id" for io_id
    by (simp only: accel_of_def g1 g2)
  note same = this
  show ?thesis
  proof (induction ids arbitrary: accel_vals)
    case Nil
    show ?case by simp
  next
    case (Cons p ids)
    obtain io_id axis where p: "p = (io_id, axis)" by (cases p)
    show ?case unfolding p extract_accel_step same by (rule Cons.IH)
  qed
qed

lemma read_record_accel:
  assumes "read_record data ts_offset = Inr (Some r, n)"
  shows "accel r =
     (let groups = fst (read_groups data [1, 2, 4, 8] (ts_offset + 28) [])
      in [(''x'', accel_value groups 0x11), (''y'', accel_value groups 0x12),
          (''z'', accel_value groups 0x13)])"
proof -
  from assms have "\<not> structural_violation data ts_offset"
    using read_record_violation by fastforce
  from read_record_ok [OF this] assms
  have "accel r =
     (let groups = fst (read_groups data [1, 2, 4, 8] (ts_offset + 28) [])
      in [(''x'', accel_of groups 0x11), (''y'', accel_of groups 0x12),
          (''z'', accel_of groups 0x13)])" by auto
  moreover have "groups_bounded (fst (read_groups data [1, 2, 4, 8] (ts_offset + 28) []))"
    by (rule read_groups_bounded) (rule groups_bounded_Nil)
  ultimately show ?thesis by (simp add: Let_def accel_of_value)
qed

section \<open>Properties of the stream decoder\<close>

lemma segment_loop_done:
  "\<not> pos < length segment \<Longrightarrow> segment_loop segment pos records = Some (Inr records)"
  by (subst segment_loop.simps) simp

lemma segment_loop_none:
  "pos < length segment \<Longrightarrow> find_timestamp_offset segment pos = Inr None \<Longrightarrow>
     segment_loop segment pos records = Some (Inr records)"
  by (subst segment_loop.simps) simp

lemma segment_loop_reject:
  "pos < length segment \<Longrightarrow> find_timestamp_offset segment pos = Inr (Some ts_offset) \<Longrightarrow>
   read_record segment ts_offset = Inr (None, n) \<Longrightarrow>
     segment_loop segment pos records = segment_loop segment (ts_offset + 1) records"
  by (subst segment_loop.simps) simp

lemma segment_loop_accept:
  "pos < length segment \<Longrightarrow> find_timestamp_offset segment pos = Inr (Some ts_offset) \<Longrightarrow>
   read_record segment ts_offset = Inr (Some r, n) \<Longrightarrow>
     segment_loop segment pos records =
       segment_loop segment (max n (ts_offset + 1)) (records @ [r])"
  by (subst segment_loop.simps) simp

lemma segment_loop_invariant:
  "\<exists>out. segment_loop segment pos records = Some (Inr (records @ out))
      \<and> (\<forall>r\<in>set out. decodes segment r)"
proof (induction "length segment - pos" arbitrary: pos records rule: less_induct)
  case less
  show ?case
  proof (cases "pos < length segment")
    case False
    then show ?thesis by (simp add: segment_loop_done)
  next
    case True
    show ?thesis
    proof (cases rule: find_timestamp_offset_cases [of segment pos])
      case 1
      with True show ?thesis by (simp add: segment_loop_none)
    next
      case (2 ts_offset)
      note f = this
      then have le: "pos \<le> ts_offset" by (simp add: find_timestamp_offset_Some)
      show ?thesis
      proof (cases rule: read_record_cases [of segment ts_offset])
        case 1
        from le True have "length segment - (ts_offset + 1) < length segment - pos" by arith
        from less [OF this] segment_loop_reject [OF True f 1(1)]
        show ?thesis by simp
      next
        case (2 r n)
        from le True
        have "length segment - max n (ts_offset + 1) < length segment - pos" by arith
        from less [OF this, of "records @ [r]"] obtain out where
          o: "segment_loop segment (max n (ts_offset + 1)) (records @ [r]) =
             Some (Inr ((records @ [r]) @ out))" "\<forall>r\<in>set out. decodes segment r"
          by blast
        from f 2(1) have "decodes segment r" unfolding decodes_def by blast
        with o segment_loop_accept [OF True f 2(1)]
        show ?thesis by (intro exI[of _ "r # out"]) simp
      qed
    qed
  qed
qed

lemma segments_loop_invariant:
  "\<exists>out. segments_loop segments records = Some (Inr (records @ out))
      \<and> (\<forall>r\<in>set out. \<exists>segment\<in>set segments. decodes segment r)"
proof (induction segments arbitrary: records)
  case Nil
  then show ?case by simp
next
  case (Cons segment segments)
  from segment_loop_invariant [of segment 0 records]
  obtain out where o: "segment_loop segment 0 records = Some (Inr (records @ out))"
    "\<forall>r\<in>set out. decodes segment r" by blast
  from Cons [of "records @ out"] obtain out' where
    o': "segments_loop segments (records @ out) = Some (Inr ((records @ out) @ out'))"
    "\<forall>r\<in>set out'. \<exists>segment\<in>set segments. decodes segment r" by blast
  from o o' show ?case by (intro exI[of _ "out @ out'"]) auto
qed

lemma located_record_plausible:
  assumes "decodes segment r"
  shows "plausible_record r"
proof -
  from assms obtain start ts_offset n where
    f: "find_timestamp_offset segment start = Inr (Some ts_offset)"
    and r: "read_record segment ts_offset = Inr (Some r, n)"
    unfolding decodes_def by blast
  from f have p: "plausible segment ts_offset" by (simp add: find_timestamp_offset_Some)
  from r have "\<not> structural_violation segment ts_offset"
    using read_record_violation by fastforce
  from read_record_ok [OF this] r
  have "timestamp_ms r = from_bytes_big (slice segment ts_offset (ts_offset + 8))"
    "priority r = unat (segment ! (ts_offset + 8))"
    "satellites r = unat (segment ! (ts_offset + 21))"
    by auto
  with p show ?thesis by (auto simp: plausible_record_def plausible_def Let_def)
qed

lemma parse_avl_data_plausible:
  "\<exists>records. parse_avl_data raw_hex = Some (Inr records) \<and> (\<forall>r\<in>set records. plausible_record r)"
proof -
  from segments_loop_invariant [of "iter_segments raw_hex" "[]"]
  show ?thesis unfolding parse_avl_data_def
    using located_record_plausible by fastforce
qed

lemma parse_avl_data_total: "\<exists>records. parse_avl_data raw_hex = Some (Inr records)"
  using parse_avl_data_plausible by blast

lemma segment_loop_reaches:
  assumes f: "find_timestamp_offset segment f = Inr (Some f)"
    and r: "read_record segment f = Inr (Some r, n)"
    and rej: "\<forall>j. pos \<le> j \<and> j < f \<and> find_timestamp_offset segment j = Inr (Some j) \<longrightarrow>
                read_record segment j = Inr (None, j + 1)"
  shows "pos \<le> f \<Longrightarrow>
     \<exists>out. segment_loop segment pos records = Some (Inr out) \<and> r \<in> set out"
  using rej
proof (induction "f - pos" arbitrary: pos rule: less_induct)
  case less
  from f have pf: "f + 24 < length segment" "plausible segment f"
    by (simp_all add: located_self)
  with less.prems have lt: "pos < length segment" by simp
  have "find_timestamp_offset segment pos \<noteq> Inr None"
    using less.prems pf by (auto simp: find_timestamp_offset_None)
  then obtain j where j: "find_timestamp_offset segment pos = Inr (Some j)"
    by (cases rule: find_timestamp_offset_cases [of segment pos]) auto
  then have jp: "pos \<le> j" "j + 24 < length segment" "plausible segment j"
    "\<forall>i. pos \<le> i \<and> i < j \<longrightarrow> \<not> plausible segment i"
    by (simp_all add: find_timestamp_offset_Some)
  with pf less.prems have jf: "j \<le> f" by (meson not_le_imp_less)
  show ?case
  proof (cases "j = f")
    case True
    from segment_loop_invariant [of segment "max n (f + 1)" "records @ [r]"]
    obtain out where "segment_loop segment (max n (f + 1)) (records @ [r]) =
        Some (Inr ((records @ [r]) @ out))" by blast
    with segment_loop_accept [OF lt j [unfolded True] r, of records]
    show ?thesis by simp
  next
    case False
    with jf have jlt: "j < f" by simp
    from jp have "find_timestamp_offset segment j = Inr (Some j)"
      by (simp add: located_self)
    with less.prems(2) jp(1) jlt have "read_record segment j = Inr (None, j + 1)" by blast
    from segment_loop_reject [OF lt j this]
    have eq: "segment_loop segment pos records = segment_loop segment (j + 1) records" .
    have "f - (j + 1) < f - pos" using jp(1) jlt by arith
    moreover have "j + 1 \<le> f" using jlt by simp
    moreover have "\<forall>i. j + 1 \<le> i \<and> i < f \<and> find_timestamp_offset segment i = Inr (Some i) \<longrightarrow>
                read_record segment i = Inr (None, i + 1)"
      using less.prems(2) jp(1) by auto
    ultimately show ?thesis using less.hyps [of "j + 1"] eq by simp
  qed
qed

lemma cursor_increases:
  assumes "find_timestamp_offset segment pos = Inr (Some ts_offset)"
  shows "pos < ts_offset + 1" and "pos < max n (ts_offset + 1)"
  using assms by (auto simp: find_timestamp_offset_Some max_def)

section \<open>The example frames, evaluated\<close>

lemma read_entries_numeral:
  "read_entries data sz (numeral k) ptr entries =
     read_entries data sz (pred_numeral k) (ptr + 2 + sz)
       (AList.update (from_bytes_big (slice data ptr (ptr + 2)))
          (from_bytes_big (slice data (ptr + 2) (ptr + 2 + sz))) entries)"
  by (simp add: numeral_eq_Suc Let_def)

lemmas dec_eval = find_timestamp_offset_def min_len_def upt_rec from_bytes_big_def slice_def
  index_def MIN_TS_MS_def MAX_TS_MS_def read_record_def on_value_def to_signed_def
  to_signed_int_def shl1_def ACCEL_IO_IDS_def group_lookup_def read_groups.simps
  read_entries_numeral
  plausible_def structural_violation_def

lemma find_A: "find_timestamp_offset frame_A 0 = Inr (Some 0)"
  by (simp add: dec_eval frame_A_def)

lemma read_A: "read_record frame_A 0 = Inr (Some rec_A, 43)"
  by (simp add: dec_eval frame_A_def rec_A_def)

lemma loop_A: "segment_loop frame_A 0 [] = Some (Inr [rec_A])"
proof -
  have "segment_loop frame_A 0 [] = segment_loop frame_A (max 43 (0 + 1)) ([] @ [rec_A])"
    by (rule segment_loop_accept [OF _ find_A read_A]) (simp add: frame_A_def)
  also have "\<dots> = Some (Inr [rec_A])"
    by (simp add: segment_loop_done frame_A_def)
  finally show ?thesis .
qed

lemma segments_A: "iter_segments hex_A = [frame_A]"
  by (simp add: seg_eval hex_A_def frame_A_def)

lemma parse_A: "parse_avl_data hex_A = Some (Inr [rec_A])"
  by (simp add: parse_avl_data_def segments_A loop_A)

lemma find_A24: "find_timestamp_offset (take 24 frame_A) 0 = Inr None"
  by (simp add: dec_eval frame_A_def)

lemma plausible_A24: "plausible (take 24 frame_A) 0"
  by (simp add: dec_eval frame_A_def)

lemma find_A25: "find_timestamp_offset (take 25 frame_A) 0 = Inr (Some 0)"
  by (simp add: dec_eval frame_A_def)

lemma read_A25: "read_record (take 25 frame_A) 0 = Inr (None, 1)"
  by (simp add: dec_eval frame_A_def)

lemma find_BA_0: "find_timestamp_offset (frame_B @ frame_A) 0 = Inr (Some 0)"
  by (simp add: dec_eval frame_A_def frame_B_def)

lemma read_BA_0: "read_record (frame_B @ frame_A) 0 = Inr (Some rec_B, 86)"
  by (simp add: dec_eval frame_A_def frame_B_def rec_B_def)

lemma find_BA_43: "find_timestamp_offset (frame_B @ frame_A) 43 = Inr (Some 43)"
  by (simp add: dec_eval frame_A_def frame_B_def)

lemma read_BA_43: "read_record (frame_B @ frame_A) 43 = Inr (Some rec_A, 86)"
  by (simp add: dec_eval frame_A_def frame_B_def rec_A_def)

lemma loop_BA: "segment_loop (frame_B @ frame_A) 0 [] = Some (Inr [rec_B])"
proof -
  have "segment_loop (frame_B @ frame_A) 0 [] =
          segment_loop (frame_B @ frame_A) (max 86 (0 + 1)) ([] @ [rec_B])"
    by (rule segment_loop_accept [OF _ find_BA_0 read_BA_0]) (simp add: frame_A_def)
  also have "\<dots> = Some (Inr [rec_B])"
    by (simp add: segment_loop_done frame_A_def frame_B_def)
  finally show ?thesis .
qed

lemma read_T: "read_record frame_T 0 = Inr (Some rec_T, 47)"
  by (simp add: dec_eval frame_T_def rec_T_def)

lemma truncated_T: "first_truncated frame_T [1, 2, 4, 8] 28 = Some 2"
  by (simp add: dec_eval frame_T_def)

lemma violation_T: "\<not> structural_violation frame_T 0"
  by (simp add: dec_eval frame_T_def)

lemma read_D: "read_record frame_D 0 = Inr (Some rec_D, 52)"
  by (simp add: dec_eval frame_D_def rec_D_def)

lemma groups_D: "read_groups frame_D [1, 2, 4, 8] 28 [] =
    ([(1, [(17, 5), (18, 128)]), (2, [(17, 65534)]), (4, [(19, 7)])], 52)"
  by (simp add: dec_eval frame_D_def)

lemma find_RA_0: "find_timestamp_offset (frame_R @ frame_A) 0 = Inr (Some 0)"
  by (simp add: dec_eval frame_A_def frame_R_def)

lemma read_RA_0: "read_record (frame_R @ frame_A) 0 = Inr (None, 1)"
  by (simp add: dec_eval frame_A_def frame_R_def)

lemma find_RA_28: "find_timestamp_offset (frame_R @ frame_A) 28 = Inr (Some 28)"
  by (simp add: dec_eval frame_A_def frame_R_def)

lemma read_RA_28: "read_record (frame_R @ frame_A) 28 = Inr (Some rec_A, 71)"
  by (simp add: dec_eval frame_A_def frame_R_def rec_A_def)

lemma implausible_RA:
  "list_all (\<lambda>j. \<not> plausible (frame_R @ frame_A) j) [1 ..< 28]"
  by (simp add: dec_eval frame_A_def frame_R_def)

section \<open>The claims about the locator, the decoder and the stream decoder\<close>

text \<open>
  Claim C1: for every input string, \<open>parse_avl_data\<close> returns a list, and every record of
  it has its timestamp in the window from \<open>MIN_TS_MS\<close> to \<open>MAX_TS_MS\<close> (both included),
  a priority in \<open>{0, 1, 2, 3}\<close> and at most 32 satellites: a record is only decoded at an
  offset that \<open>find_timestamp_offset\<close> accepted, and the decoder reads the priority and
  the satellite count from the bytes that the locator tested.
\<close>

theorem parse_avl_data_records_plausible:
  "\<exists>records. parse_avl_data raw_hex = Some (Inr records)
     \<and> (\<forall>r\<in>set records.
           MIN_TS_MS \<le> timestamp_ms r \<and> timestamp_ms r \<le> MAX_TS_MS
           \<and> priority r \<in> {0, 1, 2, 3} \<and> satellites r \<le> 32)"
  using parse_avl_data_plausible [of raw_hex] by (simp add: plausible_record_def)

theorem parse_avl_data_records_plausible_witness:
  "parse_avl_data hex_A = Some (Inr [rec_A])
   \<and> MIN_TS_MS \<le> timestamp_ms rec_A \<and> timestamp_ms rec_A \<le> MAX_TS_MS
   \<and> priority rec_A \<in> {0, 1, 2, 3} \<and> satellites rec_A \<le> 32"
  using parse_avl_data_records_plausible [of hex_A] by (simp add: parse_A)

text \<open>
  Claim C2: \<open>read_record\<close> returns no record exactly when a structural violation occurs
  (fewer than 32 bytes remaining, timestamp outside the window, total-IO count above
  256), the next offset is then \<open>ts_offset + 1\<close>, and in every other case a record is
  returned. No exception is raised in either case.
\<close>

theorem read_record_failure_policy:
  "(structural_violation data ts_offset \<longrightarrow>
      read_record data ts_offset = Inr (None, ts_offset + 1))
   \<and> (\<not> structural_violation data ts_offset \<longrightarrow>
      (\<exists>r n. read_record data ts_offset = Inr (Some r, n)))"
  using read_record_violation read_record_ok by blast

theorem read_record_failure_policy_witness:
  "structural_violation (take 25 frame_A) 0
   \<and> read_record (take 25 frame_A) 0 = Inr (None, 0 + 1)
   \<and> structural_violation (frame_R @ frame_A) 0
   \<and> read_record (frame_R @ frame_A) 0 = Inr (None, 0 + 1)
   \<and> \<not> structural_violation frame_A 0
   \<and> read_record frame_A 0 = Inr (Some rec_A, 43)"
proof -
  have a: "structural_violation (take 25 frame_A) 0"
    by (simp add: dec_eval frame_A_def)
  have b: "structural_violation (frame_R @ frame_A) 0"
    by (simp add: dec_eval frame_A_def frame_R_def)
  have c: "\<not> structural_violation frame_A 0"
    by (simp add: dec_eval frame_A_def)
  from read_record_failure_policy [of "take 25 frame_A" 0] a
  have "read_record (take 25 frame_A) 0 = Inr (None, 0 + 1)" by blast
  moreover from read_record_failure_policy [of "frame_R @ frame_A" 0] b
  have "read_record (frame_R @ frame_A) 0 = Inr (None, 0 + 1)" by blast
  ultimately show ?thesis using a b c read_A by simp
qed

text \<open>
  Claim C3 says that the locator considers every offset at which at least
  \<open>min_len = 24\<close> bytes remain. The range of the loop ends before
  \<open>len(data) - min_len\<close>, so the offset with exactly 24 bytes remaining is never tried:
  on the first 24 bytes of \<open>frame_A\<close>, whose offset 0 passes the three acceptance tests,
  the locator returns no match, and with one more byte it returns offset 0.
\<close>

theorem locator_skips_offset_with_min_len_bytes:
  "length (take 24 frame_A) = min_len \<and> plausible (take 24 frame_A) 0
   \<and> find_timestamp_offset (take 24 frame_A) 0 = Inr None
   \<and> find_timestamp_offset (take 25 frame_A) 0 = Inr (Some 0)"
  using plausible_A24 find_A24 find_A25 by (simp add: frame_A_def min_len_def)

text \<open>
  Claim C4, as stated: the first check of \<open>read_record\<close> (fewer than 32 bytes remaining)
  cannot fire at an offset that the locator returned. It can: on the first 25 bytes of
  \<open>frame_A\<close> the locator returns offset 0 and the decoder rejects it by that check.
\<close>

theorem located_offset_fails_length_check:
  "find_timestamp_offset (take 25 frame_A) 0 = Inr (Some 0)
   \<and> int (length (take 25 frame_A)) - int 0 < 32
   \<and> read_record (take 25 frame_A) 0 = Inr (None, 1)"
  using find_A25 read_A25 by (simp add: frame_A_def)

text \<open>
  Claim C4, amended: at every offset that the locator returns, at least \<open>min_len = 24\<close>
  bytes remain, so a candidate without room for a minimal GPS block never reaches the
  decoder; the decoder's own first check asks for 32 bytes and rejects a located offset
  with fewer, answering the offset plus one.
\<close>

theorem located_offset_has_min_len_bytes:
  "find_timestamp_offset data start = Inr (Some ts_offset) \<Longrightarrow>
     start \<le> ts_offset \<and> ts_offset + min_len \<le> length data
     \<and> (length data < ts_offset + 32 \<longrightarrow>
          read_record data ts_offset = Inr (None, ts_offset + 1))"
  using read_record_violation [of data ts_offset]
  by (simp add: find_timestamp_offset_Some min_len_def structural_violation_def Let_def)

theorem located_offset_has_min_len_bytes_witness:
  "find_timestamp_offset (take 25 frame_A) 0 = Inr (Some 0)
   \<and> 0 + min_len \<le> length (take 25 frame_A)
   \<and> length (take 25 frame_A) < 0 + 32
   \<and> read_record (take 25 frame_A) 0 = Inr (None, 0 + 1)"
  using located_offset_has_min_len_bytes [OF find_A25] find_A25
  by (simp add: frame_A_def)

text \<open>
  Claim C5: when the decoder reaches the IO groups and some group with a non-zero count
  declares more entries than the remaining bytes hold, \<open>read_record\<close> still returns a
  record with the GPS fields it decoded, the next offset is the end of the segment, the
  truncated group and the groups after it are not in \<open>groups\<close>, and an axis whose id is in
  no parsed group is \<open>None\<close>.
\<close>

theorem truncated_group_keeps_record:
  assumes "\<not> structural_violation data ts_offset"
    and "first_truncated data [1, 2, 4, 8] (ts_offset + 28) = Some w"
  shows "\<exists>r. read_record data ts_offset = Inr (Some r, length data)
     \<and> timestamp_ms r = from_bytes_big (slice data ts_offset (ts_offset + 8))
     \<and> priority r = unat (data ! (ts_offset + 8))
     \<and> lon r = signed_of 32 (from_bytes_big (slice data (ts_offset + 9) (ts_offset + 13)))
     \<and> lat r = signed_of 32 (from_bytes_big (slice data (ts_offset + 13) (ts_offset + 17)))
     \<and> altitude r = signed_of 16 (from_bytes_big (slice data (ts_offset + 17) (ts_offset + 19)))
     \<and> angle r = from_bytes_big (slice data (ts_offset + 19) (ts_offset + 21))
     \<and> satellites r = unat (data ! (ts_offset + 21))
     \<and> speed r = from_bytes_big (slice data (ts_offset + 22) (ts_offset + 24))
     \<and> (let groups = fst (read_groups data [1, 2, 4, 8] (ts_offset + 28) [])
        in (\<forall>sz. w \<le> sz \<longrightarrow> map_of groups sz = None)
           \<and> (\<forall>(io_id, axis)\<in>set ACCEL_IO_IDS.
                 group_lookup groups 1 io_id = None \<and> group_lookup groups 2 io_id = None \<longrightarrow>
                 map_of (accel r) axis = Some None))
     \<and> (w = 1 \<longrightarrow> accel r = [(''x'', None), (''y'', None), (''z'', None)])"
proof -
  let ?groups = "fst (read_groups data [1, 2, 4, 8] (ts_offset + 28) [])"
  note t = read_groups_truncated_1248 [OF assms(2)]
  have absent: "accel_of ?groups io_id = None"
    if "group_lookup ?groups 1 io_id = None" "group_lookup ?groups 2 io_id = None" for io_id
    using that by (simp add: accel_of_def)
  have none: "accel_of ?groups io_id = None" if "w = 1" for io_id
  proof -
    from t(2) that have "map_of ?groups 1 = None" "map_of ?groups 2 = None" by simp_all
    then show ?thesis by (simp add: accel_of_def group_lookup_def)
  qed
  show ?thesis
    unfolding read_record_ok [OF assms(1)] t(1)
    using t(2) absent none by (auto simp: ACCEL_IO_IDS_def Let_def)
qed

theorem truncated_group_keeps_record_witness:
  "\<not> structural_violation frame_T 0 \<and> first_truncated frame_T [1, 2, 4, 8] (0 + 28) = Some 2
   \<and> read_record frame_T 0 = Inr (Some rec_T, length frame_T)
   \<and> timestamp_ms rec_T = 1700000002000 \<and> satellites rec_T = 9
   \<and> accel rec_T = [(''x'', Some (- 2)), (''y'', None), (''z'', None)]"
proof -
  have t: "first_truncated frame_T [1, 2, 4, 8] (0 + 28) = Some 2"
    using truncated_T by simp
  from truncated_group_keeps_record [OF violation_T t]
  obtain r where "read_record frame_T 0 = Inr (Some r, length frame_T)" by blast
  with read_T have "read_record frame_T 0 = Inr (Some rec_T, length frame_T)" by simp
  with violation_T t show ?thesis by (simp add: rec_T_def)
qed

text \<open>
  Claim C6: in a decoded record the axes \<open>x\<close>, \<open>y\<close>, \<open>z\<close> hold the values of the ids
  \<^verbatim>\<open>0x0011\<close>, \<^verbatim>\<open>0x0012\<close>, \<^verbatim>\<open>0x0013\<close>: the 2-byte group's entry read as a signed 16-bit
  word when the id is in that group, otherwise the 1-byte group's entry read as a signed
  8-bit word, otherwise \<open>None\<close>; whatever a group of another width holds, the extraction
  gives the same result.
\<close>

theorem accelerometer_extraction:
  assumes "read_record data ts_offset = Inr (Some r, n)"
  shows "let groups = fst (read_groups data [1, 2, 4, 8] (ts_offset + 28) [])
     in accel r = [(''x'', accel_value groups 0x0011), (''y'', accel_value groups 0x0012),
                   (''z'', accel_value groups 0x0013)]
        \<and> (\<forall>sz entries. sz \<noteq> 1 \<and> sz \<noteq> 2 \<longrightarrow>
              extract_accel (AList.update sz entries groups) ACCEL_IO_IDS
                [(''x'', None), (''y'', None), (''z'', None)] = Inr (accel r))"
proof -
  let ?groups = "fst (read_groups data [1, 2, 4, 8] (ts_offset + 28) [])"
  have b: "groups_bounded ?groups"
    by (rule read_groups_bounded) (rule groups_bounded_Nil)
  from read_record_accel [OF assms]
  have a: "accel r = [(''x'', accel_value ?groups 0x0011), (''y'', accel_value ?groups 0x0012),
                      (''z'', accel_value ?groups 0x0013)]"
    by (simp add: Let_def)
  have "extract_accel (AList.update sz entries ?groups) ACCEL_IO_IDS
          [(''x'', None), (''y'', None), (''z'', None)] = Inr (accel r)"
    if "sz \<noteq> 1" "sz \<noteq> 2" for sz entries
  proof -
    have "extract_accel (AList.update sz entries ?groups) ACCEL_IO_IDS
            [(''x'', None), (''y'', None), (''z'', None)] =
          extract_accel ?groups ACCEL_IO_IDS [(''x'', None), (''y'', None), (''z'', None)]"
      by (rule extract_accel_other_group [OF that])
    also have "\<dots> = Inr (accel r)"
      unfolding extract_accel_ids a accel_of_value [OF b] by (rule refl)
    finally show ?thesis .
  qed
  with a show ?thesis by (simp add: Let_def)
qed

theorem accelerometer_extraction_witness:
  "read_record frame_D 0 = Inr (Some rec_D, 52)
   \<and> fst (read_groups frame_D [1, 2, 4, 8] (0 + 28) []) =
       [(1, [(0x0011, 0x05), (0x0012, 0x80)]), (2, [(0x0011, 0xFFFE)]), (4, [(0x0013, 7)])]
   \<and> accel rec_D = [(''x'', Some (- 2)), (''y'', Some (- 128)), (''z'', None)]"
proof -
  have g: "fst (read_groups frame_D [1, 2, 4, 8] (0 + 28) []) =
       [(1, [(0x0011, 0x05), (0x0012, 0x80)]), (2, [(0x0011, 0xFFFE)]), (4, [(0x0013, 7)])]"
    using groups_D by simp
  from accelerometer_extraction [OF read_D]
  have "accel rec_D =
      [(''x'', accel_value [(1, [(0x0011, 0x05), (0x0012, 0x80)]), (2, [(0x0011, 0xFFFE)]),
                             (4, [(0x0013, 7)])] 0x0011),
       (''y'', accel_value [(1, [(0x0011, 0x05), (0x0012, 0x80)]), (2, [(0x0011, 0xFFFE)]),
                             (4, [(0x0013, 7)])] 0x0012),
       (''z'', accel_value [(1, [(0x0011, 0x05), (0x0012, 0x80)]), (2, [(0x0011, 0xFFFE)]),
                             (4, [(0x0013, 7)])] 0x0013)]"
    unfolding g by (simp add: Let_def)
  then have "accel rec_D = [(''x'', Some (- 2)), (''y'', Some (- 128)), (''z'', None)]"
    by (simp add: accel_value_def group_lookup_def)
  with read_D g show ?thesis by simp
qed

text \<open>
  Claim C7, as stated: a single corrupted frame never prevents the decoding of a valid
  frame later in the same segment. It can: \<open>frame_B\<close> has a corrupted count in its 1-byte
  group, the decoder accepts it with the cursor moved to the end of the segment, and
  \<open>frame_A\<close> behind it, which the locator and the decoder accept at offset 43, is never
  decoded.
\<close>

theorem corrupted_frame_hides_later_frame:
  "find_timestamp_offset (frame_B @ frame_A) 43 = Inr (Some 43)
   \<and> read_record (frame_B @ frame_A) 43 = Inr (Some rec_A, 86)
   \<and> segment_loop (frame_B @ frame_A) 0 [] = Some (Inr [rec_B])
   \<and> rec_A \<notin> set [rec_B]"
  using find_BA_43 read_BA_43 loop_BA by (simp add: rec_A_def rec_B_def)

text \<open>
  Claim C7, amended: \<open>parse_avl_data\<close> terminates on every input, and so does the scan of
  a segment from every cursor; the cursor grows in every iteration (to the located
  offset plus one on failure, to at least that on success); and a frame that the decoder
  rejects never prevents the decoding of a later frame: when every offset that the
  locator accepts between the cursor and a later frame is rejected by the decoder, that
  frame is decoded and its record is in the result.
\<close>

theorem stream_decoder_terminates_and_resumes:
  "(\<exists>records. parse_avl_data raw_hex = Some (Inr records))
   \<and> (\<exists>out. segment_loop segment pos records = Some (Inr (records @ out)))
   \<and> (find_timestamp_offset segment pos = Inr (Some ts_offset) \<longrightarrow>
        pos < ts_offset + 1 \<and> pos < max n (ts_offset + 1))
   \<and> (pos \<le> f \<and> find_timestamp_offset segment f = Inr (Some f)
        \<and> read_record segment f = Inr (Some r, n)
        \<and> (\<forall>j. pos \<le> j \<and> j < f \<and> find_timestamp_offset segment j = Inr (Some j) \<longrightarrow>
               read_record segment j = Inr (None, j + 1)) \<longrightarrow>
        (\<exists>out. segment_loop segment pos records = Some (Inr out) \<and> r \<in> set out))"
proof -
  have "\<exists>records. parse_avl_data raw_hex = Some (Inr records)"
    by (rule parse_avl_data_total)
  moreover have "\<exists>out. segment_loop segment pos records = Some (Inr (records @ out))"
    using segment_loop_invariant [of segment pos records] by blast
  moreover have "pos < ts_offset + 1 \<and> pos < max n (ts_offset + 1)"
    if "find_timestamp_offset segment pos = Inr (Some ts_offset)"
    using cursor_increases [OF that] by simp
  moreover have "\<exists>out. segment_loop segment pos records = Some (Inr out) \<and> r \<in> set out"
    if "pos \<le> f" "find_timestamp_offset segment f = Inr (Some f)"
      "read_record segment f = Inr (Some r, n)"
      "\<forall>j. pos \<le> j \<and> j < f \<and> find_timestamp_offset segment j = Inr (Some j) \<longrightarrow>
               read_record segment j = Inr (None, j + 1)"
    using segment_loop_reaches [OF that(2) that(3) that(4) that(1)] .
  ultimately show ?thesis by blast
qed

theorem stream_decoder_terminates_and_resumes_witness:
  "find_timestamp_offset (frame_R @ frame_A) 0 = Inr (Some 0)
   \<and> read_record (frame_R @ frame_A) 0 = Inr (None, 0 + 1)
   \<and> find_timestamp_offset (frame_R @ frame_A) 28 = Inr (Some 28)
   \<and> read_record (frame_R @ frame_A) 28 = Inr (Some rec_A, 71)
   \<and> (\<exists>out. segment_loop (frame_R @ frame_A) 0 [] = Some (Inr out) \<and> rec_A \<in> set out)"
proof -
  have rej: "\<forall>j. 0 \<le> j \<and> j < 28 \<and> find_timestamp_offset (frame_R @ frame_A) j = Inr (Some j) \<longrightarrow>
               read_record (frame_R @ frame_A) j = Inr (None, j + 1)"
  proof (intro allI impI)
    fix j :: nat
    assume a: "0 \<le> j \<and> j < 28 \<and> find_timestamp_offset (frame_R @ frame_A) j = Inr (Some j)"
    then have p: "plausible (frame_R @ frame_A) j" by (simp add: located_self)
    have "j = 0"
    proof (rule ccontr)
      assume "j \<noteq> 0"
      with a have "j \<in> set [1 ..< 28]" by simp
      with implausible_RA have "\<not> plausible (frame_R @ frame_A) j"
        unfolding list_all_iff by blast
      with p show False by simp
    qed
    with read_RA_0 show "read_record (frame_R @ frame_A) j = Inr (None, j + 1)" by simp
  qed
  from stream_decoder_terminates_and_resumes
    [of _ "frame_R @ frame_A" 0 "[]" _ 71 28 rec_A] find_RA_28 read_RA_28 rej
  have "\<exists>out. segment_loop (frame_R @ frame_A) 0 [] = Some (Inr out) \<and> rec_A \<in> set out"
    by blast
  with find_RA_0 read_RA_0 find_RA_28 read_RA_28 show ?thesis by simp
qed

end
